theory Spec2Isabelle
  imports Complex_Main
begin

section \<open>Scoring state of the session (App.tsx)\<close>

text \<open>
  The component \<^verbatim>\<open>App\<close> keeps the score state in React state cells
  (\<^verbatim>\<open>score\<close>, \<^verbatim>\<open>combo\<close>, \<^verbatim>\<open>multiplier\<close>, \<^verbatim>\<open>health\<close>, \<^verbatim>\<open>isNoFailMode\<close>).
  They are collected in one record that every handler takes and returns. The field
  \<open>defeatSignals\<close> counts the calls \<^verbatim>\<open>setTimeout(() => endGame(false), 0)\<close> that
  \<^verbatim>\<open>handleNoteMiss\<close> has scheduled. All values in these cells are integers.

  The cells \<^verbatim>\<open>score\<close>, \<^verbatim>\<open>combo\<close> and \<^verbatim>\<open>health\<close> are written through updater
  functions (\<^verbatim>\<open>setCombo(c => ...)\<close>), which receive the value that the previous update
  left, so successive events accumulate. The variable \<^verbatim>\<open>multiplier\<close> in
  \<^verbatim>\<open>setScore(s => s + (points * multiplier))\<close> is different: it is the constant of the
  render that created the handler (\<^verbatim>\<open>useCallback(..., [multiplier])\<close>). The loop of a
  frame calls one and the same handler for all its hits, so every hit of a frame
  multiplies by the multiplier that was rendered before the frame, whatever the events
  of the frame have done to the cell since. This captured value is the first argument of
  \<open>handleNoteHit\<close>.
\<close>

record session =
  score :: int
  combo :: int
  multiplier :: int
  health :: int
  isNoFailMode :: bool
  defeatSignals :: nat

text \<open>The step function inside the updater of \<^verbatim>\<open>setCombo\<close> (App.tsx, lines 253 to 256).\<close>

definition comboMultiplier :: "int \<Rightarrow> int" where
  "comboMultiplier newCombo =
     (if newCombo > 30 then 8
      else if newCombo > 20 then 4
      else if newCombo > 10 then 2
      else 1)"

text \<open>
  \<^verbatim>\<open>handleNoteHit(note, goodCut)\<close>, as created by a render in which the cell
  \<^verbatim>\<open>multiplier\<close> had the value \<open>capturedMultiplier\<close>. The note itself is not used by
  the handler.
\<close>

definition handleNoteHit :: "int \<Rightarrow> bool \<Rightarrow> session \<Rightarrow> session" where
  "handleNoteHit capturedMultiplier goodCut s =
     (let points = (if goodCut then 100 + 50 else 100);
          newCombo = combo s + 1
      in s\<lparr> combo := newCombo,
            multiplier := comboMultiplier newCombo,
            score := score s + points * capturedMultiplier,
            health := min 100 (health s + 2) \<rparr>)"

text \<open>
  \<^verbatim>\<open>handleNoteMiss(note)\<close>. The handler reads \<^verbatim>\<open>isNoFailMode\<close> from its closure; the
  flag is only toggled in the menu, between sessions, so it is read from the state.
\<close>

definition handleNoteMiss :: "session \<Rightarrow> session" where
  "handleNoteMiss s =
     (let s1 = s\<lparr> combo := 0, multiplier := 1 \<rparr>
      in if \<not> isNoFailMode s then
           (let newHealth = health s - 15
            in if newHealth \<le> 0
               then s1\<lparr> health := 0, defeatSignals := Suc (defeatSignals s) \<rparr>
               else s1\<lparr> health := newHealth \<rparr>)
         else s1)"

text \<open>
  \<^verbatim>\<open>handleStartRequest\<close>: the start of a session. It returns at once when the camera is
  not ready; otherwise it resets the four counters. The no-fail flag is left as the menu
  toggle set it. The handler also clears the flags of the notes of the chart and starts
  the countdown, which are not part of this record.
\<close>

definition handleStartRequest :: "bool \<Rightarrow> session \<Rightarrow> session" where
  "handleStartRequest isCameraReady s =
     (if \<not> isCameraReady then s
      else s\<lparr> score := 0, combo := 0, multiplier := 1, health := 100 \<rparr>)"

text \<open>
  The callbacks that the scene fires: \<^verbatim>\<open>onNoteHit(note, goodCut)\<close>,
  \<^verbatim>\<open>onNoteMiss(note)\<close> and \<^verbatim>\<open>onSongEnd()\<close>. A note is named by its position in the
  chart. \<^verbatim>\<open>onSongEnd\<close> calls \<^verbatim>\<open>endGame(true)\<close>, which touches none of the cells above.
  \<open>dispatch m\<close> runs the handlers of a render in which the multiplier was \<open>m\<close>.
\<close>

datatype sceneEvent = OnNoteHit nat bool | OnNoteMiss nat | OnSongEnd

fun dispatch :: "int \<Rightarrow> session \<Rightarrow> sceneEvent \<Rightarrow> session" where
  "dispatch m s (OnNoteHit k goodCut) = handleNoteHit m goodCut s"
| "dispatch m s (OnNoteMiss k) = handleNoteMiss s"
| "dispatch m s OnSongEnd = s"

text \<open>
  The callbacks of one frame, in the order the loop fires them: all of them come from
  the render of the state \<open>s\<close> before the frame. React renders again before the next
  frame, so a run is a list of frames, each played on the state the previous one left.
\<close>

definition playFrame :: "session \<Rightarrow> sceneEvent list \<Rightarrow> session" where
  "playFrame s evs = foldl (dispatch (multiplier s)) s evs"

definition playFrames :: "session \<Rightarrow> sceneEvent list list \<Rightarrow> session" where
  "playFrames s frames = foldl playFrame s frames"

text \<open>The session after \<open>n\<close> misses in a row.\<close>

fun misses :: "nat \<Rightarrow> session \<Rightarrow> session" where
  "misses 0 s = s"
| "misses (Suc n) s = handleNoteMiss (misses n s)"

text \<open>A session as \<^verbatim>\<open>useState\<close> initialises it, with the no-fail mode off.\<close>

definition freshSession :: session where
  "freshSession = \<lparr> score = 0, combo = 0, multiplier = 1, health = 100,
                    isNoFailMode = False, defeatSignals = 0 \<rparr>"

section \<open>Chart generation (constants.ts)\<close>

text \<open>
  Numbers are real numbers, without the values \<^verbatim>\<open>NaN\<close> and \<^verbatim>\<open>Infinity\<close>. In
  \<open>generateChart\<close> and in the scene the arithmetic is the exact one. What depends on
  the rounding of doubles is stated about \<open>generateChartRounded\<close> below, which takes
  the rounding as a parameter. The loop counter \<^verbatim>\<open>i\<close>, \<^verbatim>\<open>totalBeats\<close>,
  \<^verbatim>\<open>lineIndex\<close> and \<^verbatim>\<open>lineLayer\<close> only take whole values and are integers.

  \<^verbatim>\<open>NoteData\<close> (its declaration in types.ts is not among the sources; the fields are the
  ones that constants.ts writes and the scene reads). The id \<^verbatim>\<open>note-k\<close> is kept as the
  number \<open>k\<close>, the field \<^verbatim>\<open>type\<close> is \<open>noteType\<close>. The optional fields \<^verbatim>\<open>hit\<close> and
  \<^verbatim>\<open>missed\<close> are absent, hence falsy, in a fresh note: they start as \<open>False\<close>.
\<close>

datatype hand = LeftHand | RightHand

datatype cutDir = UP | DOWN | LEFT | RIGHT | ANY

record noteData =
  noteId :: nat
  time :: real
  lineIndex :: int
  lineLayer :: int
  noteType :: hand
  cutDirection :: cutDir
  hit :: bool
  missed :: bool
  hitTime :: "real option"

text \<open>Game world configuration.\<close>

definition SPAWN_Z :: real where "SPAWN_Z = - 30"
definition PLAYER_Z :: real where "PLAYER_Z = 0"
definition MISS_Z :: real where "MISS_Z = 5"
definition NOTE_SPEED :: real where "NOTE_SPEED = 10"
definition LANE_WIDTH :: real where "LANE_WIDTH = 1.4"

definition LANE_X_POSITIONS :: "real list" where
  "LANE_X_POSITIONS = [- 1.5 * LANE_WIDTH, - 0.5 * LANE_WIDTH, 0.5 * LANE_WIDTH, 1.5 * LANE_WIDTH]"

definition LAYER_Y_POSITIONS :: "real list" where
  "LAYER_Y_POSITIONS = [0.8, 1.6, 2.4]"

text \<open>
  \<^verbatim>\<open>getRandomInt(min, max)\<close>; the argument \<open>r\<close> is the value that \<^verbatim>\<open>Math.random()\<close>
  returns for this call.
\<close>

definition getRandomInt :: "int \<Rightarrow> int \<Rightarrow> real \<Rightarrow> int" where
  "getRandomInt mn mx r = \<lfloor>r * of_int (mx - mn + 1)\<rfloor> + mn"

definition newNote :: "nat \<Rightarrow> real \<Rightarrow> int \<Rightarrow> int \<Rightarrow> hand \<Rightarrow> noteData" where
  "newNote k t lane layer h =
     \<lparr> noteId = k, time = t, lineIndex = lane, lineLayer = layer, noteType = h,
       cutDirection = ANY, hit = False, missed = False, hitTime = None \<rparr>"

text \<open>
  One pass through the body of the \<^verbatim>\<open>for\<close> loop of \<^verbatim>\<open>generateChart\<close>, for the beat
  \<open>i\<close>. The state is the array \<^verbatim>\<open>notes\<close>, the counter \<^verbatim>\<open>idCount\<close> and the number of
  calls of \<^verbatim>\<open>Math.random\<close> made so far; \<open>rnd n\<close> is the value of call number \<open>n\<close>.
  The counter \<open>i\<close> is at least 4, where \<^verbatim>\<open>Math.floor(i / 16) % 3\<close> and \<^verbatim>\<open>i % 4\<close> are
  \<open>div\<close> and \<open>mod\<close>.
\<close>

definition chartStep ::
  "real \<Rightarrow> real \<Rightarrow> (nat \<Rightarrow> real) \<Rightarrow> int \<Rightarrow> noteData list \<times> nat \<times> nat \<Rightarrow> noteData list \<times> nat \<times> nat" where
  "chartStep beatTime offset rnd i st =
     (case st of (notes, idCount, draws) \<Rightarrow>
       (let t = offset + of_int i * beatTime;
            pattern = (i div 16) mod 3
        in if pattern = 0 then
             (if i mod 4 = 0
              then (notes @ [newNote idCount t (getRandomInt 0 1 (rnd draws)) 0 LeftHand],
                    idCount + 1, draws + 1)
              else (notes @ [newNote idCount t (getRandomInt 2 3 (rnd draws)) 0 RightHand],
                    idCount + 1, draws + 1))
           else if pattern = 1 then
             (if i mod 8 = 0
              then (notes @ [newNote idCount t 0 1 LeftHand,
                             newNote (idCount + 1) t 3 1 RightHand],
                    idCount + 2, draws)
              else (notes, idCount, draws))
           else
             (notes @ [newNote idCount t (getRandomInt 0 1 (rnd draws)) 0 LeftHand,
                       newNote (idCount + 1) (t + beatTime)
                         (getRandomInt 2 3 (rnd (draws + 1))) 0 RightHand],
              idCount + 2, draws + 2)))"

text \<open>\<^verbatim>\<open>for (let i = 4; i < totalBeats; i += 2)\<close>, entered with the current \<open>i\<close>.\<close>

function chartLoop ::
  "real \<Rightarrow> real \<Rightarrow> int \<Rightarrow> (nat \<Rightarrow> real) \<Rightarrow> int \<Rightarrow> noteData list \<times> nat \<times> nat \<Rightarrow> noteData list \<times> nat \<times> nat" where
  "chartLoop beatTime offset totalBeats rnd i st =
     (if i < totalBeats
      then chartLoop beatTime offset totalBeats rnd (i + 2) (chartStep beatTime offset rnd i st)
      else st)"
  by pat_completeness auto
termination
  by (relation "measure (\<lambda>(beatTime, offset, totalBeats, rnd, i, st). nat (totalBeats - i))") auto

declare chartLoop.simps [simp del]

text \<open>
  \<^verbatim>\<open>generateChart(bpm, offset, durationSeconds)\<close>. The comparator
  \<^verbatim>\<open>(a, b) => a.time - b.time\<close> orders by \<open>time\<close>, and \<^verbatim>\<open>Array.prototype.sort\<close> is
  stable: this is the stable insertion sort \<open>sort_key\<close>.
\<close>

definition generateChart :: "real \<Rightarrow> real \<Rightarrow> real \<Rightarrow> (nat \<Rightarrow> real) \<Rightarrow> noteData list" where
  "generateChart bpm offset durationSeconds rnd =
     (let beatTime = 60 / bpm;
          totalBeats = \<lceil>(durationSeconds / 60) * bpm\<rceil>
      in sort_key time (fst (chartLoop beatTime offset totalBeats rnd 4 ([], 0, 0))))"

text \<open>
  How a call of \<^verbatim>\<open>generateChart\<close> ends. The function has no \<^verbatim>\<open>throw\<close> and checks
  none of its parameters, so a call always returns its array.
\<close>

datatype chartError = ValidationError

definition generate :: "real \<Rightarrow> real \<Rightarrow> real \<Rightarrow> (nat \<Rightarrow> real) \<Rightarrow> chartError + noteData list" where
  "generate bpm offset durationSeconds rnd = Inr (generateChart bpm offset durationSeconds rnd)"


text \<open>A random source on which every call of \<^verbatim>\<open>Math.random\<close> returns \<open>r\<close>.\<close>

definition constDraws :: "real \<Rightarrow> nat \<Rightarrow> real" where
  "constDraws r k = r"

subsection \<open>The arithmetic of doubles\<close>

text \<open>
  A JavaScript number is an IEEE 754 binary64 value, and the result of an addition, a
  multiplication or a division is the exact result rounded to the nearest double, a tie
  going to the even significand. \<open>toDouble x\<close> is this rounding for results in the
  normal range (it does not model the overflow to \<^verbatim>\<open>Infinity\<close> or the subnormal
  numbers): with \<open>e = binExp \<bar>x\<bar>\<close> the binary exponent, \<open>2 ^ e \<le> \<bar>x\<bar> < 2 ^ (e + 1)\<close>,
  the doubles around \<open>x\<close> are the multiples of \<open>2 ^ (e - 52)\<close>. A decimal literal such
  as \<^verbatim>\<open>0.01\<close> denotes \<open>toDouble 0.01\<close>.
\<close>

definition pow2 :: "int \<Rightarrow> real" where
  "pow2 e = (if 0 \<le> e then 2 ^ nat e else 1 / 2 ^ nat (- e))"

function binExp :: "real \<Rightarrow> int" where
  "binExp m =
     (if m \<le> 0 then 0
      else if 2 \<le> m then binExp (m / 2) + 1
      else if m < 1 then binExp (2 * m) - 1
      else 0)"
  by pat_completeness auto
termination
proof (relation "measure (\<lambda>m. nat \<lfloor>m\<rfloor> + 2 * nat \<lceil>1 / m\<rceil>)")
  show "wf (measure (\<lambda>m. nat \<lfloor>m\<rfloor> + 2 * nat \<lceil>1 / m\<rceil>))" by simp
next
  fix m :: real
  assume a: "\<not> m \<le> 0" "2 \<le> m"
  have f: "\<lfloor>m / 2\<rfloor> < \<lfloor>m\<rfloor>"
  proof -
    have "m / 2 \<le> m - 1" using a by simp
    then have "\<lfloor>m / 2\<rfloor> \<le> \<lfloor>m - 1\<rfloor>" by (rule floor_mono)
    then show ?thesis by simp
  qed
  have p: "0 < \<lfloor>m\<rfloor>" using a by simp
  have c1: "\<lceil>1 / (m / 2)\<rceil> = 1"
    using a by (simp add: ceiling_eq_iff)
  have c2: "\<lceil>1 / m\<rceil> = 1"
    using a by (simp add: ceiling_eq_iff field_simps)
  show "(m / 2, m) \<in> measure (\<lambda>m. nat \<lfloor>m\<rfloor> + 2 * nat \<lceil>1 / m\<rceil>)"
    using f p c1 c2 by simp
next
  fix m :: real
  assume a: "\<not> m \<le> 0" "\<not> 2 \<le> m" "m < 1"
  have m0: "\<lfloor>m\<rfloor> = 0" using a by (simp add: floor_eq_iff)
  show "(2 * m, m) \<in> measure (\<lambda>m. nat \<lfloor>m\<rfloor> + 2 * nat \<lceil>1 / m\<rceil>)"
  proof (cases "m < 1 / 2")
    case True
    then have f: "\<lfloor>2 * m\<rfloor> = 0" using a by (simp add: floor_eq_iff)
    have "1 / (2 * m) \<le> 1 / m - 1" using a True by (simp add: field_simps)
    then have "\<lceil>1 / (2 * m)\<rceil> \<le> \<lceil>1 / m - 1\<rceil>" by (rule ceiling_mono)
    then have "\<lceil>1 / (2 * m)\<rceil> < \<lceil>1 / m\<rceil>" by simp
    moreover have "0 < \<lceil>1 / m\<rceil>" using a by simp
    ultimately show ?thesis using f m0 by simp
  next
    case False
    then have f: "\<lfloor>2 * m\<rfloor> = 1" using a by (simp add: floor_eq_iff)
    have c1: "\<lceil>1 / (2 * m)\<rceil> = 1" using a False by (simp add: ceiling_eq_iff field_simps)
    have c2: "\<lceil>1 / m\<rceil> = 2" using a False by (simp add: ceiling_eq_iff field_simps)
    show ?thesis using f m0 c1 c2 by simp
  qed
qed

declare binExp.simps [simp del]

definition roundEven :: "real \<Rightarrow> int" where
  "roundEven q =
     (let n = \<lfloor>q\<rfloor>; r = q - of_int n
      in if r < 1 / 2 then n
         else if 1 / 2 < r then n + 1
         else if even n then n else n + 1)"

definition toDouble :: "real \<Rightarrow> real" where
  "toDouble x =
     (if x = 0 then 0
      else (let u = pow2 (binExp \<bar>x\<bar> - 52)
            in sgn x * of_int (roundEven (\<bar>x\<bar> / u)) * u))"







section \<open>The scene: spawning, collision and misses (GameScene)\<close>

text \<open>
  \<^verbatim>\<open>THREE.Vector3\<close> with the four operations the scene uses, as the library defines
  them: \<^verbatim>\<open>length\<close>, \<^verbatim>\<open>distanceTo\<close>, \<^verbatim>\<open>dot\<close> and \<^verbatim>\<open>normalize\<close>, which divides by
  \<^verbatim>\<open>length() || 1\<close>.
\<close>

datatype vector3 = Vector3 real real real

fun vlength :: "vector3 \<Rightarrow> real" where
  "vlength (Vector3 x y z) = sqrt (x * x + y * y + z * z)"

fun distanceTo :: "vector3 \<Rightarrow> vector3 \<Rightarrow> real" where
  "distanceTo (Vector3 x y z) (Vector3 x' y' z') =
     sqrt ((x - x') * (x - x') + (y - y') * (y - y') + (z - z') * (z - z'))"

fun dot :: "vector3 \<Rightarrow> vector3 \<Rightarrow> real" where
  "dot (Vector3 x y z) (Vector3 x' y' z') = x * x' + y * y' + z * z'"

fun divideScalar :: "vector3 \<Rightarrow> real \<Rightarrow> vector3" where
  "divideScalar (Vector3 x y z) c = Vector3 (x / c) (y / c) (z / c)"

definition normalize :: "vector3 \<Rightarrow> vector3" where
  "normalize v = divideScalar v (if vlength v = 0 then 1 else vlength v)"

fun DIRECTION_VECTORS :: "cutDir \<Rightarrow> vector3" where
  "DIRECTION_VECTORS UP = Vector3 0 1 0"
| "DIRECTION_VECTORS DOWN = Vector3 0 (- 1) 0"
| "DIRECTION_VECTORS LEFT = Vector3 (- 1) 0 0"
| "DIRECTION_VECTORS RIGHT = Vector3 1 0 0"
| "DIRECTION_VECTORS ANY = Vector3 0 0 0"

text \<open>
  Modelled from the spec: the type \<^verbatim>\<open>HandPositions\<close> (types.ts and the hook that fills
  it are not among the sources). A hand has a position, or none when it is not detected,
  and a velocity.
\<close>

record hands =
  left :: "vector3 option"
  right :: "vector3 option"
  leftVelocity :: vector3
  rightVelocity :: vector3

text \<open>
  The refs and state of \<^verbatim>\<open>GameScene\<close>. The notes are objects shared between
  \<^verbatim>\<open>notesState\<close> and \<^verbatim>\<open>activeNotesRef.current\<close>: \<open>notesState\<close> is the store, and
  \<open>activeNotes\<close> holds references into it, a reference being the position of the note in
  \<open>notesState\<close>.
\<close>

record gameScene =
  notesState :: "noteData list"
  activeNotes :: "nat list"
  nextNoteIndex :: nat

text \<open>The scene after the effect that runs when the chart changes.\<close>

definition initScene :: "noteData list \<Rightarrow> gameScene" where
  "initScene chart = \<lparr> notesState = chart, activeNotes = [], nextNoteIndex = 0 \<rparr>"

definition spawnAheadTime :: real where
  "spawnAheadTime = \<bar>SPAWN_Z - PLAYER_Z\<bar> / NOTE_SPEED"

text \<open>Step 1 of the frame, the \<^verbatim>\<open>while\<close> loop that spawns notes.\<close>

function spawnNotes :: "real \<Rightarrow> gameScene \<Rightarrow> gameScene" where
  "spawnNotes t s =
     (if nextNoteIndex s < length (notesState s) then
        (if time (notesState s ! nextNoteIndex s) - spawnAheadTime \<le> t
         then spawnNotes t (s\<lparr> activeNotes := activeNotes s @ [nextNoteIndex s],
                                nextNoteIndex := nextNoteIndex s + 1 \<rparr>)
         else s)
      else s)"
  by pat_completeness auto
termination
  by (relation "measure (\<lambda>(t, s). length (notesState s) - nextNoteIndex s)") auto

declare spawnNotes.simps [simp del]

text \<open>
  Reading \<^verbatim>\<open>LANE_X_POSITIONS[note.lineIndex]\<close>: outside the array the value is
  \<^verbatim>\<open>undefined\<close>, here \<open>None\<close>.
\<close>

definition arrayAt :: "real list \<Rightarrow> int \<Rightarrow> real option" where
  "arrayAt xs i = (if 0 \<le> i \<and> i < int (length xs) then Some (xs ! nat i) else None)"

definition currentZ :: "real \<Rightarrow> noteData \<Rightarrow> real" where
  "currentZ t n = PLAYER_Z - ((time n - t) * NOTE_SPEED)"

text \<open>
  The hand test of the collision check: the hand of the note is present and closer than
  0.9 to the position of the note. With an \<^verbatim>\<open>undefined\<close> coordinate the distance is
  \<^verbatim>\<open>NaN\<close> and the comparison is false.
\<close>

definition handReaches :: "hands \<Rightarrow> noteData \<Rightarrow> real \<Rightarrow> bool" where
  "handReaches h n z =
     (case (if noteType n = LeftHand then left h else right h) of
        None \<Rightarrow> False
      | Some handPos \<Rightarrow>
          (case (arrayAt LANE_X_POSITIONS (lineIndex n), arrayAt LAYER_Y_POSITIONS (lineLayer n)) of
             (Some x, Some y) \<Rightarrow> distanceTo handPos (Vector3 x y z) < 0.9
           | _ \<Rightarrow> False))"

definition goodCutOf :: "hands \<Rightarrow> noteData \<Rightarrow> bool" where
  "goodCutOf h n =
     (let handVel = (if noteType n = LeftHand then leftVelocity h else rightVelocity h);
          speed = vlength handVel
      in if cutDirection n \<noteq> ANY
         then \<not> (dot (normalize handVel) (DIRECTION_VECTORS (cutDirection n)) < 0.3 \<or> speed < 1.5)
         else \<not> speed < 1.5)"

text \<open>
  What the body of the collision loop decides for one note: \<open>Skip\<close> for a note that is
  already hit or missed (\<^verbatim>\<open>continue\<close>), \<open>Miss\<close>, \<open>Hit goodCut\<close>, or \<open>Stay\<close> when the
  note is left as it is. The checks are in the order of the source: the miss check
  first, then the collision check.
\<close>

datatype verdict = Skip | Miss | Hit bool | Stay

definition judgeNote :: "real \<Rightarrow> hands \<Rightarrow> noteData \<Rightarrow> verdict" where
  "judgeNote t h n =
     (if hit n \<or> missed n then Skip
      else if currentZ t n > MISS_Z then Miss
      else if currentZ t n > PLAYER_Z - 1.5 \<and> currentZ t n < PLAYER_Z + 1.0
        then (if handReaches h n (currentZ t n) then Hit (goodCutOf h n) else Stay)
      else Stay)"


text \<open>\<^verbatim>\<open>array.splice(i, 1)\<close>.\<close>

definition splice1 :: "nat \<Rightarrow> 'a list \<Rightarrow> 'a list" where
  "splice1 i xs = take i xs @ drop (Suc i) xs"

text \<open>
  The body of the collision loop at index \<open>i\<close> of the active notes. The second component
  collects the callbacks fired so far in this frame. In the loop \<open>i\<close> is below the
  length of the active notes, since a pass removes at most the entry it looks at, and
  every reference points into \<open>notesState\<close>; the reads \<open>!\<close> are in range.
\<close>

definition collideAt ::
  "real \<Rightarrow> hands \<Rightarrow> nat \<Rightarrow> gameScene \<times> sceneEvent list \<Rightarrow> gameScene \<times> sceneEvent list" where
  "collideAt t h i st =
     (case st of (s, evs) \<Rightarrow>
       (let k = activeNotes s ! i;
            n = notesState s ! k
        in case judgeNote t h n of
             Skip \<Rightarrow> (s, evs)
           | Miss \<Rightarrow>
               (s\<lparr> notesState := (notesState s)[k := n\<lparr> missed := True \<rparr>],
                   activeNotes := splice1 i (activeNotes s) \<rparr>,
                evs @ [OnNoteMiss k])
           | Hit goodCut \<Rightarrow>
               (s\<lparr> notesState := (notesState s)[k := n\<lparr> hit := True, hitTime := Some t \<rparr>],
                   activeNotes := splice1 i (activeNotes s) \<rparr>,
                evs @ [OnNoteHit k goodCut])
           | Stay \<Rightarrow> (s, evs)))"

text \<open>
  \<^verbatim>\<open>for (let i = activeNotesRef.current.length - 1; i >= 0; i--)\<close>: \<open>collideLoop t h n\<close>
  runs the body for \<open>i = n - 1\<close> down to \<open>0\<close>.
\<close>

fun collideLoop ::
  "real \<Rightarrow> hands \<Rightarrow> nat \<Rightarrow> gameScene \<times> sceneEvent list \<Rightarrow> gameScene \<times> sceneEvent list" where
  "collideLoop t h 0 st = st"
| "collideLoop t h (Suc i) st = collideLoop t h i (collideAt t h i st)"

text \<open>
  What a frame reads from outside: the game status (the values of \<^verbatim>\<open>GameStatus\<close> that
  App.tsx uses), the audio element (its \<^verbatim>\<open>currentTime\<close> and \<^verbatim>\<open>ended\<close>, or nothing
  when \<^verbatim>\<open>audioRef.current\<close> is null) and the hands.
\<close>

datatype gameStatus = LOADING | IDLE | COUNTDOWN | PLAYING | GAME_OVER | VICTORY

record frame =
  status :: gameStatus
  audio :: "(real \<times> bool) option"
  handPositions :: hands

text \<open>The gameplay part of the \<^verbatim>\<open>useFrame\<close> callback of \<^verbatim>\<open>GameScene\<close>.\<close>

definition useFrame :: "frame \<Rightarrow> gameScene \<Rightarrow> gameScene \<times> sceneEvent list" where
  "useFrame f s =
     (if status f \<noteq> PLAYING then (s, [])
      else case audio f of
             None \<Rightarrow> (s, [])
           | Some (t, ended) \<Rightarrow>
               if ended then (s, [OnSongEnd])
               else (let s1 = spawnNotes t s
                     in collideLoop t (handPositions f) (length (activeNotes s1)) (s1, [])))"

text \<open>A run of frames, with all the callbacks it fires.\<close>

fun runFrames :: "gameScene \<Rightarrow> frame list \<Rightarrow> gameScene \<times> sceneEvent list" where
  "runFrames s [] = (s, [])"
| "runFrames s (f # fs) =
     (case useFrame f s of (s1, evs1) \<Rightarrow>
        (case runFrames s1 fs of (s2, evs2) \<Rightarrow> (s2, evs1 @ evs2)))"

text \<open>
  The references pushed on \<^verbatim>\<open>activeNotesRef.current\<close> by the spawn loop of one frame,
  and by all the frames of a run.
\<close>

definition admittedIn :: "frame \<Rightarrow> gameScene \<Rightarrow> nat list" where
  "admittedIn f s =
     (if status f \<noteq> PLAYING then []
      else case audio f of
             None \<Rightarrow> []
           | Some (t, ended) \<Rightarrow>
               if ended then []
               else drop (length (activeNotes s)) (activeNotes (spawnNotes t s)))"

fun admissions :: "gameScene \<Rightarrow> frame list \<Rightarrow> nat list" where
  "admissions s [] = []"
| "admissions s (f # fs) = admittedIn f s @ admissions (fst (useFrame f s)) fs"

text \<open>
  The status of the note at position \<open>k\<close> of the chart, read off the scene: hit or
  missed by its flags, active when a reference to it is among the active notes, pending
  otherwise.
\<close>

datatype noteStatus = StatusPending | StatusActive | StatusHit | StatusMissed

definition noteStatusOf :: "gameScene \<Rightarrow> nat \<Rightarrow> noteStatus" where
  "noteStatusOf s k =
     (if hit (notesState s ! k) then StatusHit
      else if missed (notesState s ! k) then StatusMissed
      else if k \<in> set (activeNotes s) then StatusActive
      else StatusPending)"

fun statusRank :: "noteStatus \<Rightarrow> nat" where
  "statusRank StatusPending = 0"
| "statusRank StatusActive = 1"
| "statusRank StatusHit = 2"
| "statusRank StatusMissed = 2"

text \<open>The callbacks of a run that are about the note \<open>k\<close>.\<close>

fun eventNote :: "sceneEvent \<Rightarrow> nat option" where
  "eventNote (OnNoteHit k goodCut) = Some k"
| "eventNote (OnNoteMiss k) = Some k"
| "eventNote OnSongEnd = None"

definition eventsOf :: "nat \<Rightarrow> sceneEvent list \<Rightarrow> sceneEvent list" where
  "eventsOf k evs = filter (\<lambda>e. eventNote e = Some k) evs"

text \<open>Every reference among the active notes points to a note of the chart.\<close>

definition validRefs :: "gameScene \<Rightarrow> bool" where
  "validRefs s = list_all (\<lambda>k. k < length (notesState s)) (activeNotes s)"

text \<open>
  Two notions for the proofs. A note is resolved once one of its flags is set. The
  relation \<open>advances k s s' new\<close> collects what a stretch of the frame loop that leads
  from the scene \<open>s\<close> to \<open>s'\<close> and fires the callbacks \<open>new\<close> guarantees for the note
  \<open>k\<close>.
\<close>

definition resolved :: "noteData \<Rightarrow> bool" where
  "resolved n = (hit n \<or> missed n)"

text \<open>The flag that a callback reports.\<close>

fun eventMatches :: "sceneEvent \<Rightarrow> noteData \<Rightarrow> bool" where
  "eventMatches (OnNoteHit j goodCut) n = hit n"
| "eventMatches (OnNoteMiss j) n = missed n"
| "eventMatches OnSongEnd n = False"

definition advances :: "nat \<Rightarrow> gameScene \<Rightarrow> gameScene \<Rightarrow> sceneEvent list \<Rightarrow> bool" where
  "advances k s s' new =
     (length (notesState s') = length (notesState s)
      \<and> validRefs s'
      \<and> nextNoteIndex s \<le> nextNoteIndex s'
      \<and> (resolved (notesState s ! k) \<longrightarrow>
            notesState s' ! k = notesState s ! k \<and> eventsOf k new = [])
      \<and> (hit (notesState s' ! k) \<and> missed (notesState s' ! k) \<longrightarrow>
            hit (notesState s ! k) \<and> missed (notesState s ! k))
      \<and> (k \<in> set (activeNotes s) \<longrightarrow>
            k \<in> set (activeNotes s') \<or> resolved (notesState s' ! k))
      \<and> length (eventsOf k new) \<le> 1
      \<and> (\<forall>e \<in> set (eventsOf k new).
            eventMatches e (notesState s' ! k)))"

text \<open>
  Inputs for worked examples: no hand detected, only the left hand detected at a
  position (at rest), and the frame of a game that is playing at audio time \<open>t\<close>.
\<close>

definition noHands :: hands where
  "noHands = \<lparr> left = None, right = None,
               leftVelocity = Vector3 0 0 0, rightVelocity = Vector3 0 0 0 \<rparr>"


definition playing :: "real \<Rightarrow> hands \<Rightarrow> frame" where
  "playing t h = \<lparr> status = PLAYING, audio = Some (t, False), handPositions = h \<rparr>"

section \<open>Facts about the scoring handlers\<close>

lemma dispatch_isNoFailMode: "isNoFailMode (dispatch m s e) = isNoFailMode s"
  by (cases e) (simp_all add: handleNoteHit_def handleNoteMiss_def Let_def)

lemma dispatch_multiplier_inv:
  "multiplier s = comboMultiplier (combo s) \<Longrightarrow>
   multiplier (dispatch m s e) = comboMultiplier (combo (dispatch m s e))"
  by (cases e) (simp_all add: handleNoteHit_def handleNoteMiss_def Let_def comboMultiplier_def)

lemma dispatch_full_health:
  "isNoFailMode s \<Longrightarrow> health s = 100 \<Longrightarrow> health (dispatch m s e) = 100"
  by (cases e) (simp_all add: handleNoteHit_def handleNoteMiss_def Let_def)

text \<open>
  Within a frame the captured multiplier stays the same while the state moves on, so
  the facts are proved for a fold with any fixed \<open>m\<close>.
\<close>

lemma foldl_dispatch_isNoFailMode:
  "isNoFailMode (foldl (dispatch m) s evs) = isNoFailMode s"
  by (induction evs arbitrary: s) (simp_all add: dispatch_isNoFailMode)

lemma foldl_dispatch_multiplier_inv:
  "multiplier s = comboMultiplier (combo s) \<Longrightarrow>
   multiplier (foldl (dispatch m) s evs) = comboMultiplier (combo (foldl (dispatch m) s evs))"
  by (induction evs arbitrary: s) (simp_all add: dispatch_multiplier_inv)

lemma foldl_dispatch_full_health:
  "isNoFailMode s \<Longrightarrow> health s = 100 \<Longrightarrow> health (foldl (dispatch m) s evs) = 100"
  by (induction evs arbitrary: s) (simp_all add: dispatch_full_health dispatch_isNoFailMode)

lemma playFrames_Nil: "playFrames s [] = s"
  by (simp add: playFrames_def)

lemma playFrames_snoc: "playFrames s (fs @ [f]) = playFrame (playFrames s fs) f"
  by (simp add: playFrames_def)

lemma playFrames_isNoFailMode: "isNoFailMode (playFrames s fs) = isNoFailMode s"
  by (induction fs rule: rev_induct)
     (simp_all add: playFrames_Nil playFrames_snoc playFrame_def foldl_dispatch_isNoFailMode)

lemma playFrames_multiplier_inv:
  "multiplier s = comboMultiplier (combo s) \<Longrightarrow>
   multiplier (playFrames s fs) = comboMultiplier (combo (playFrames s fs))"
  by (induction fs rule: rev_induct)
     (simp_all add: playFrames_Nil playFrames_snoc playFrame_def foldl_dispatch_multiplier_inv)

lemma playFrames_full_health:
  "isNoFailMode s \<Longrightarrow> health s = 100 \<Longrightarrow> health (playFrames s fs) = 100"
  by (induction fs rule: rev_induct)
     (simp_all add: playFrames_Nil playFrames_snoc playFrame_def foldl_dispatch_full_health
        playFrames_isNoFailMode)

text \<open>
  The first hit of a frame is scored with the multiplier of the combo streak before it:
  the state that a session has reached when a frame begins carries the multiplier that
  belongs to its combo, and this is the value the handler of the frame has captured.
\<close>

lemma first_hit_of_frame:
  "score (playFrame (playFrames (handleStartRequest True s0) fs) [OnNoteHit k goodCut])
     = score (playFrames (handleStartRequest True s0) fs)
       + (100 + (if goodCut then 50 else 0))
         * comboMultiplier (combo (playFrames (handleStartRequest True s0) fs))"
proof -
  have "multiplier (handleStartRequest True s0)
          = comboMultiplier (combo (handleStartRequest True s0))"
    by (simp add: handleStartRequest_def comboMultiplier_def)
  then have "multiplier (playFrames (handleStartRequest True s0) fs)
          = comboMultiplier (combo (playFrames (handleStartRequest True s0) fs))"
    by (rule playFrames_multiplier_inv)
  then show ?thesis
    by (simp add: playFrame_def handleNoteHit_def Let_def)
qed

text \<open>
  Ten plain hits, one per frame, from the start of a session: combo 10, still at
  multiplier 1, score 1000.
\<close>

lemma ten_hits:
  "playFrames (handleStartRequest True freshSession) (replicate 10 [OnNoteHit 0 False])
     = \<lparr> score = 1000, combo = 10, multiplier = 1, health = 100,
         isNoFailMode = False, defeatSignals = 0 \<rparr>"
  by (simp add: eval_nat_numeral playFrames_def playFrame_def handleStartRequest_def
        freshSession_def handleNoteHit_def comboMultiplier_def Let_def)

text \<open>
  Twenty-one plain hits, one per frame, bring the session to combo 21 and multiplier 4.
  A frame that then fires a miss and after it a good hit scores the hit with the
  multiplier 4 of the last render, although the miss has reset the combo to 0 and the
  cell \<^verbatim>\<open>multiplier\<close> to 1.
\<close>

lemma hit_after_miss_in_frame:
  "multiplier (playFrames (handleStartRequest True freshSession)
                 (replicate 21 [OnNoteHit 0 False])) = 4
   \<and> score (playFrames (handleStartRequest True freshSession)
                 (replicate 21 [OnNoteHit 0 False])) = 3100
   \<and> score (playFrame (playFrames (handleStartRequest True freshSession)
                          (replicate 21 [OnNoteHit 0 False]))
              [OnNoteMiss 21, OnNoteHit 22 True]) = 3100 + 150 * 4
   \<and> combo (playFrame (playFrames (handleStartRequest True freshSession)
                          (replicate 21 [OnNoteHit 0 False]))
              [OnNoteMiss 21]) = 0"
  by (simp add: eval_nat_numeral playFrames_def playFrame_def handleStartRequest_def
        freshSession_def handleNoteHit_def handleNoteMiss_def comboMultiplier_def Let_def)

section \<open>Claims about scoring\<close>

text \<open>
  Claim C3. A session that is started with the no-fail mode switched on keeps its health
  at the value the start gave it (100): no sequence of hit and miss events, of any length
  and in any order, however it is spread over the frames, changes it.
\<close>

theorem noFail_health_constant:
  assumes "isNoFailMode s0"
  shows "health (playFrames (handleStartRequest True s0) frames)
           = health (handleStartRequest True s0)"
proof -
  have "isNoFailMode (handleStartRequest True s0)"
    using assms by (simp add: handleStartRequest_def)
  moreover have "health (handleStartRequest True s0) = 100"
    by (simp add: handleStartRequest_def)
  ultimately show ?thesis
    by (simp add: playFrames_full_health)
qed

theorem noFail_health_constant_witness:
  "isNoFailMode \<lparr> score = 0, combo = 0, multiplier = 1, health = 100,
       isNoFailMode = True, defeatSignals = 0 \<rparr>
   \<and> health (playFrames (handleStartRequest True
         \<lparr> score = 0, combo = 0, multiplier = 1, health = 100,
           isNoFailMode = True, defeatSignals = 0 \<rparr>)
         [[OnNoteMiss 0, OnNoteHit 1 True], [OnNoteMiss 2], [OnNoteMiss 3, OnNoteHit 4 False]])
       = 100"
  using noFail_health_constant [of "\<lparr> score = 0, combo = 0, multiplier = 1, health = 100,
       isNoFailMode = True, defeatSignals = 0 \<rparr>"
       "[[OnNoteMiss 0, OnNoteHit 1 True], [OnNoteMiss 2], [OnNoteMiss 3, OnNoteHit 4 False]]"]
  by (simp add: handleStartRequest_def)

text \<open>
  Claim C4, where the code departs from it. The claim asks that a hit be scored with
  the multiplier of the combo streak before this hit. After ten plain hits the session
  is at combo 10, multiplier 1 and score 1000. A frame then fires two good hits, as the
  two notes of a wide double cut together do. The first brings the combo to 11 and the
  score to 1150. The streak before the second hit is 11, whose multiplier is 2, so the
  claim gives 1150 + 150 * 2 = 1450; the handler still holds the multiplier 1 of the
  last render and the score is 1300.
\<close>

theorem second_hit_of_frame_stale_multiplier:
  "score (playFrames (handleStartRequest True freshSession)
            (replicate 10 [OnNoteHit 0 False])) = 1000
   \<and> combo (playFrame (playFrames (handleStartRequest True freshSession)
                         (replicate 10 [OnNoteHit 0 False]))
             [OnNoteHit 10 True]) = 11
   \<and> score (playFrame (playFrames (handleStartRequest True freshSession)
                         (replicate 10 [OnNoteHit 0 False]))
             [OnNoteHit 10 True]) = 1150
   \<and> 1150 + (100 + 50) * comboMultiplier 11 = 1450
   \<and> score (playFrame (playFrames (handleStartRequest True freshSession)
                         (replicate 10 [OnNoteHit 0 False]))
             [OnNoteHit 10 True, OnNoteHit 11 True]) = 1300"
  unfolding ten_hits
  by (simp add: playFrame_def handleNoteHit_def comboMultiplier_def Let_def)

text \<open>
  Claim C7. From health 100 with the no-fail mode off, seven misses in a row take the
  health through 85, 70, 55, 40, 25 and 10 to exactly 0, and the defeat signal is
  scheduled once, by the seventh miss and by none before it.
\<close>

theorem seven_misses_defeat:
  "map (\<lambda>n. health (misses n \<lparr> score = sc, combo = c, multiplier = m, health = 100,
                               isNoFailMode = False, defeatSignals = 0 \<rparr>))
       [1, 2, 3, 4, 5, 6, 7]
     = [85, 70, 55, 40, 25, 10, 0]
   \<and> map (\<lambda>n. defeatSignals (misses n \<lparr> score = sc, combo = c, multiplier = m, health = 100,
                               isNoFailMode = False, defeatSignals = 0 \<rparr>))
       [0, 1, 2, 3, 4, 5, 6, 7]
     = [0, 0, 0, 0, 0, 0, 0, 1]"
  by (simp add: eval_nat_numeral handleNoteMiss_def Let_def)

text \<open>
  Claim C10. The healing of a hit does not look at the no-fail mode: whatever the flag,
  and whatever multiplier the handler has captured, a hit on a state with health below
  100 sets the health to the smaller of 100 and health plus 2.
\<close>

theorem hit_heals_in_any_mode:
  "health s < 100 \<Longrightarrow>
     health (handleNoteHit m goodCut (s\<lparr> isNoFailMode := True \<rparr>)) = min 100 (health s + 2)
   \<and> health (handleNoteHit m goodCut (s\<lparr> isNoFailMode := False \<rparr>)) = min 100 (health s + 2)
   \<and> health (handleNoteHit m goodCut s) \<noteq> health s"
  by (simp add: handleNoteHit_def Let_def)

theorem hit_heals_in_any_mode_witness:
  "health \<lparr> score = 0, combo = 0, multiplier = 1, health = 99,
       isNoFailMode = True, defeatSignals = 0 \<rparr> < 100
   \<and> health (handleNoteHit 1 False \<lparr> score = 0, combo = 0, multiplier = 1, health = 99,
       isNoFailMode = True, defeatSignals = 0 \<rparr>) = 100"
  using hit_heals_in_any_mode [of "\<lparr> score = 0, combo = 0, multiplier = 1, health = 99,
       isNoFailMode = True, defeatSignals = 0 \<rparr>" 1 False]
  by simp

section \<open>Facts about chart generation\<close>

lemma chartLoop_done: "\<not> i < totalBeats \<Longrightarrow> chartLoop beatTime offset totalBeats rnd i st = st"
  by (simp add: chartLoop.simps)









lemma generateChart_no_beats:
  assumes "bpm * durationSeconds \<le> 0"
  shows "generateChart bpm offset durationSeconds rnd = []"
proof -
  have "(durationSeconds / 60) * bpm \<le> 0"
    using assms by (simp add: mult.commute divide_le_0_iff zero_le_mult_iff mult_le_0_iff)
  then have "\<lceil>(durationSeconds / 60) * bpm\<rceil> \<le> 0"
    by (simp add: ceiling_le_iff)
  then have "\<not> 4 < \<lceil>(durationSeconds / 60) * bpm\<rceil>"
    by simp
  then show ?thesis
    by (simp add: generateChart_def Let_def chartLoop_done)
qed

text \<open>
  A chart worked out in full: 120 beats per minute, offset 0.5, five seconds. The ten
  beats give the three notes of the beats 4, 6 and 8.
\<close>

lemma generateChart_example:
  "map time (generateChart 120 0.5 5 (constDraws 0)) = [2.5, 3.5, 4.5]
   \<and> map time (generateChart 120 0 5 (constDraws 0)) = [2, 3, 4]
   \<and> map lineIndex (generateChart 120 0.5 5 (constDraws 0)) = [0, 2, 0]"
  by (simp add: generateChart_def chartLoop.simps chartStep_def newNote_def getRandomInt_def
        constDraws_def)

text \<open>
  The exponent that \<open>toDouble\<close> uses is the binary exponent, and the rounding gives the
  well-known doubles of 0.1 and of a third and leaves doubles as they are.
\<close>

lemma pow2_pos: "0 < pow2 e"
  by (simp add: pow2_def)

lemma pow2_step: "pow2 (e + 1) = 2 * pow2 e"
proof (cases "0 \<le> e")
  case True
  then have "nat (e + 1) = Suc (nat e)" by simp
  then show ?thesis using True by (simp add: pow2_def)
next
  case False
  show ?thesis
  proof (cases "e = - 1")
    case True
    then show ?thesis by (simp add: pow2_def)
  next
    case ne: False
    then have "nat (- e) = Suc (nat (- (e + 1)))" using False by simp
    then show ?thesis using False ne by (simp add: pow2_def)
  qed
qed

lemma binExp_bounds: "0 < m \<Longrightarrow> pow2 (binExp m) \<le> m \<and> m < pow2 (binExp m + 1)"
proof (induction m rule: binExp.induct)
  case (1 m)
  show ?case
  proof (cases "2 \<le> m")
    case True
    have e: "binExp m = binExp (m / 2) + 1"
      using True "1.prems" by (subst binExp.simps) simp
    have ih: "pow2 (binExp (m / 2)) \<le> m / 2 \<and> m / 2 < pow2 (binExp (m / 2) + 1)"
      using "1.IH"(1) True "1.prems" by simp
    have s1: "pow2 (binExp (m / 2) + 1) = 2 * pow2 (binExp (m / 2))"
      by (rule pow2_step)
    have s2: "pow2 (binExp (m / 2) + 1 + 1) = 2 * pow2 (binExp (m / 2) + 1)"
      by (rule pow2_step)
    have g1: "pow2 (binExp (m / 2) + 1) \<le> m" using ih s1 by linarith
    have g2: "m < pow2 (binExp (m / 2) + 1 + 1)" using ih s2 by linarith
    show ?thesis unfolding e using g1 g2 by blast
  next
    case False
    show ?thesis
    proof (cases "m < 1")
      case True
      have e: "binExp m = binExp (2 * m) - 1"
        using True False "1.prems" by (subst binExp.simps) simp
      have ih: "pow2 (binExp (2 * m)) \<le> 2 * m \<and> 2 * m < pow2 (binExp (2 * m) + 1)"
        using "1.IH"(2) True False "1.prems" by simp
      have s0: "pow2 (binExp (2 * m) - 1 + 1) = 2 * pow2 (binExp (2 * m) - 1)"
        by (rule pow2_step)
      have s1: "pow2 (binExp (2 * m)) = 2 * pow2 (binExp (2 * m) - 1)"
        using s0 by simp
      have s2: "pow2 (binExp (2 * m) + 1) = 2 * pow2 (binExp (2 * m))"
        by (rule pow2_step)
      have g1: "pow2 (binExp (2 * m) - 1) \<le> m" using ih s1 by linarith
      have g2: "m < pow2 (binExp (2 * m) - 1 + 1)" using ih s0 s1 s2 by linarith
      show ?thesis unfolding e using g1 g2 by blast
    next
      case ge: False
      have e: "binExp m = 0"
        using ge False "1.prems" by (subst binExp.simps) simp
      show ?thesis
        unfolding e using ge False by (simp add: pow2_def)
    qed
  qed
qed

lemma toDouble_examples:
  "toDouble 0.1 = 3602879701896397 / 36028797018963968
   \<and> toDouble (1 / 3) = 6004799503160661 / 18014398509481984
   \<and> toDouble 1.5 = 1.5
   \<and> toDouble 63 = 63
   \<and> toDouble (- 0.1) = - (3602879701896397 / 36028797018963968)"
  by (simp add: toDouble_def binExp.simps pow2_def roundEven_def Let_def)








section \<open>Claims about chart generation\<close>

text \<open>
  Claim C1, as the specification states it: a call with a parameter that is not valid
  (bpm at most 0, or a duration at most 0) ends in a validation error. The code has no
  such check. The call with bpm = -120 returns a note sequence, the empty one.
\<close>

theorem generate_invalid_bpm_returns:
  "(- 120 :: real) \<le> 0 \<and> generate (- 120) 0 300 (constDraws 0) = Inr []"
  by (simp add: generate_def generateChart_def chartLoop.simps)

text \<open>
  Claim C1, amended: \<^verbatim>\<open>generateChart\<close> validates nothing and never fails. Every call
  returns a note sequence, and the sequence is empty whenever the product of bpm and
  duration is at most 0, which covers a bpm at most 0 with a positive duration and a
  duration at most 0 with a positive bpm.
\<close>

theorem generate_never_fails:
  "(\<exists>chart. generate bpm offset durationSeconds rnd = Inr chart)
   \<and> (bpm * durationSeconds \<le> 0 \<longrightarrow> generate bpm offset durationSeconds rnd = Inr [])"
  by (simp add: generate_def generateChart_no_beats)

theorem generate_never_fails_witness:
  "(140 :: real) * (- 1) \<le> 0 \<and> generate 140 0.1 (- 1) (constDraws 0) = Inr []"
  using generate_never_fails [of 140 "0.1" "- 1" "constDraws 0"]
  by simp

text \<open>
  Claim C5. For a positive bpm, any offset and a positive duration, the notes that
  \<^verbatim>\<open>generateChart\<close> returns are in order of non-decreasing time.
\<close>

theorem generateChart_sorted:
  "0 < bpm \<Longrightarrow> 0 < durationSeconds \<Longrightarrow>
   sorted (map time (generateChart bpm offset durationSeconds rnd))"
  by (simp add: generateChart_def Let_def)

theorem generateChart_sorted_witness:
  "(0 :: real) < 120 \<and> (0 :: real) < 5
   \<and> sorted (map time (generateChart 120 0.5 5 (constDraws 0)))
   \<and> map time (generateChart 120 0.5 5 (constDraws 0)) = [2.5, 3.5, 4.5]"
  using generateChart_sorted [of 120 5 "0.5" "constDraws 0"] generateChart_example
  by simp




section \<open>Facts about the scene\<close>

subsection \<open>The spawn loop\<close>

lemma spawnNotes_stop:
  "\<not> (nextNoteIndex s < length (notesState s)
      \<and> time (notesState s ! nextNoteIndex s) - spawnAheadTime \<le> t)
   \<Longrightarrow> spawnNotes t s = s"
  by (subst spawnNotes.simps) auto

lemma spawnNotes_go:
  "nextNoteIndex s < length (notesState s) \<Longrightarrow>
   time (notesState s ! nextNoteIndex s) - spawnAheadTime \<le> t \<Longrightarrow>
   spawnNotes t s = spawnNotes t (s\<lparr> activeNotes := activeNotes s @ [nextNoteIndex s],
                                nextNoteIndex := nextNoteIndex s + 1 \<rparr>)"
  by (subst spawnNotes.simps) simp

lemma spawnNotes_notesState: "notesState (spawnNotes t s) = notesState s"
proof (induction t s rule: spawnNotes.induct)
  case (1 t s)
  show ?case
  proof (cases "nextNoteIndex s < length (notesState s)
      \<and> time (notesState s ! nextNoteIndex s) - spawnAheadTime \<le> t")
    case True
    then show ?thesis using "1" by (simp add: spawnNotes_go)
  next
    case False
    then show ?thesis by (simp add: spawnNotes_stop)
  qed
qed

lemma spawnNotes_cursor_mono: "nextNoteIndex s \<le> nextNoteIndex (spawnNotes t s)"
proof (induction t s rule: spawnNotes.induct)
  case (1 t s)
  show ?case
  proof (cases "nextNoteIndex s < length (notesState s)
      \<and> time (notesState s ! nextNoteIndex s) - spawnAheadTime \<le> t")
    case True
    then show ?thesis using "1" by (simp add: spawnNotes_go)
  next
    case False
    then show ?thesis by (simp add: spawnNotes_stop)
  qed
qed

lemma spawnNotes_cursor_bound:
  "nextNoteIndex s \<le> length (notesState s) \<Longrightarrow>
   nextNoteIndex (spawnNotes t s) \<le> length (notesState s)"
proof (induction t s rule: spawnNotes.induct)
  case (1 t s)
  show ?case
  proof (cases "nextNoteIndex s < length (notesState s)
      \<and> time (notesState s ! nextNoteIndex s) - spawnAheadTime \<le> t")
    case True
    then show ?thesis using "1" by (simp add: spawnNotes_go)
  next
    case False
    then show ?thesis using "1.prems" by (simp add: spawnNotes_stop)
  qed
qed

lemma spawnNotes_active:
  "activeNotes (spawnNotes t s)
     = activeNotes s @ [nextNoteIndex s ..< nextNoteIndex (spawnNotes t s)]"
proof (induction t s rule: spawnNotes.induct)
  case (1 t s)
  show ?case
  proof (cases "nextNoteIndex s < length (notesState s)
      \<and> time (notesState s ! nextNoteIndex s) - spawnAheadTime \<le> t")
    case True
    let ?s' = "s\<lparr> activeNotes := activeNotes s @ [nextNoteIndex s],
                  nextNoteIndex := nextNoteIndex s + 1 \<rparr>"
    have eq: "spawnNotes t s = spawnNotes t ?s'"
      using True by (simp add: spawnNotes_go)
    have le: "Suc (nextNoteIndex s) \<le> nextNoteIndex (spawnNotes t ?s')"
      using spawnNotes_cursor_mono [of ?s' t] by simp
    have "activeNotes (spawnNotes t ?s')
            = (activeNotes s @ [nextNoteIndex s])
              @ [Suc (nextNoteIndex s) ..< nextNoteIndex (spawnNotes t ?s')]"
      using "1" True by simp
    also have "\<dots> = activeNotes s @ [nextNoteIndex s ..< nextNoteIndex (spawnNotes t ?s')]"
      using le by (simp add: upt_conv_Cons)
    finally show ?thesis by (simp add: eq)
  next
    case False
    then show ?thesis by (simp add: spawnNotes_stop)
  qed
qed

lemma spawnNotes_admitted_due:
  "nextNoteIndex s \<le> j \<Longrightarrow> j < nextNoteIndex (spawnNotes t s) \<Longrightarrow>
   j < length (notesState s) \<and> time (notesState s ! j) - spawnAheadTime \<le> t"
proof (induction t s rule: spawnNotes.induct)
  case (1 t s)
  show ?case
  proof (cases "nextNoteIndex s < length (notesState s)
      \<and> time (notesState s ! nextNoteIndex s) - spawnAheadTime \<le> t")
    case True
    let ?s' = "s\<lparr> activeNotes := activeNotes s @ [nextNoteIndex s],
                  nextNoteIndex := nextNoteIndex s + 1 \<rparr>"
    have eq: "spawnNotes t s = spawnNotes t ?s'"
      using True by (simp add: spawnNotes_go)
    show ?thesis
    proof (cases "j = nextNoteIndex s")
      case True
      then show ?thesis using \<open>nextNoteIndex s < length (notesState s)
      \<and> time (notesState s ! nextNoteIndex s) - spawnAheadTime \<le> t\<close> by simp
    next
      case False
      then have "nextNoteIndex ?s' \<le> j" using "1.prems" by simp
      moreover have "j < nextNoteIndex (spawnNotes t ?s')" using "1.prems" eq by simp
      ultimately show ?thesis using "1.IH" True by simp
    qed
  next
    case False
    then show ?thesis using "1.prems" by (simp add: spawnNotes_stop)
  qed
qed

lemma spawnNotes_first_not_due:
  "nextNoteIndex (spawnNotes t s) < length (notesState s) \<Longrightarrow>
   \<not> time (notesState s ! nextNoteIndex (spawnNotes t s)) - spawnAheadTime \<le> t"
proof (induction t s rule: spawnNotes.induct)
  case (1 t s)
  show ?case
  proof (cases "nextNoteIndex s < length (notesState s)
      \<and> time (notesState s ! nextNoteIndex s) - spawnAheadTime \<le> t")
    case True
    then show ?thesis using "1" by (simp add: spawnNotes_go)
  next
    case False
    then show ?thesis using "1.prems" by (simp add: spawnNotes_stop)
  qed
qed

lemma spawnNotes_sorted_exact:
  assumes "sorted (map time (notesState s))"
    and "nextNoteIndex s \<le> j" and "j < length (notesState s)"
  shows "j < nextNoteIndex (spawnNotes t s) \<longleftrightarrow> time (notesState s ! j) - spawnAheadTime \<le> t"
proof
  assume "j < nextNoteIndex (spawnNotes t s)"
  then show "time (notesState s ! j) - spawnAheadTime \<le> t"
    using spawnNotes_admitted_due assms(2) by blast
next
  assume due: "time (notesState s ! j) - spawnAheadTime \<le> t"
  show "j < nextNoteIndex (spawnNotes t s)"
  proof (rule ccontr)
    assume "\<not> j < nextNoteIndex (spawnNotes t s)"
    then have le: "nextNoteIndex (spawnNotes t s) \<le> j" by simp
    then have lt: "nextNoteIndex (spawnNotes t s) < length (notesState s)"
      using assms(3) by simp
    have "map time (notesState s) ! nextNoteIndex (spawnNotes t s) \<le> map time (notesState s) ! j"
      using assms(1) le assms(3) by (simp add: sorted_nth_mono del: nth_map)
    then have "time (notesState s ! nextNoteIndex (spawnNotes t s)) \<le> time (notesState s ! j)"
      using lt assms(3) by simp
    then have "time (notesState s ! nextNoteIndex (spawnNotes t s)) - spawnAheadTime \<le> t"
      using due by simp
    then show False using spawnNotes_first_not_due [OF lt] by simp
  qed
qed

subsection \<open>The collision loop\<close>

lemma eventMatches_resolved: "eventMatches e n \<Longrightarrow> resolved n"
  by (cases e) (simp_all add: resolved_def)

lemma eventsOf_append: "eventsOf k (xs @ ys) = eventsOf k xs @ eventsOf k ys"
  by (simp add: eventsOf_def)

lemma eventsOf_Nil: "eventsOf k [] = []"
  by (simp add: eventsOf_def)

lemma eventsOf_resolves:
  "advances k s s' new \<Longrightarrow> eventsOf k new \<noteq> [] \<Longrightarrow> resolved (notesState s' ! k)"
proof -
  assume a: "advances k s s' new" and ne: "eventsOf k new \<noteq> []"
  then obtain e where e: "e \<in> set (eventsOf k new)" by (cases "eventsOf k new") auto
  then have "eventMatches e (notesState s' ! k)"
    using a unfolding advances_def by blast
  then show ?thesis by (rule eventMatches_resolved)
qed

lemma advances_refl: "validRefs s \<Longrightarrow> advances k s s []"
  by (simp add: advances_def eventsOf_Nil)

lemma advances_trans:
  assumes a: "advances k s s' n1" and b: "advances k s' s'' n2"
  shows "advances k s s'' (n1 @ n2)"
proof -
  have keep: "resolved (notesState s' ! k) \<Longrightarrow>
              notesState s'' ! k = notesState s' ! k \<and> eventsOf k n2 = []"
    using b unfolding advances_def by blast
  have r1: "eventsOf k n1 \<noteq> [] \<Longrightarrow> resolved (notesState s' ! k)"
    using eventsOf_resolves [OF a] .
  have c1: "length (notesState s'') = length (notesState s)"
    using a b unfolding advances_def by simp
  have c2: "validRefs s''" using b unfolding advances_def by simp
  have c3: "nextNoteIndex s \<le> nextNoteIndex s''"
    using a b unfolding advances_def by simp
  have c4: "resolved (notesState s ! k) \<longrightarrow>
            notesState s'' ! k = notesState s ! k \<and> eventsOf k (n1 @ n2) = []"
  proof
    assume r: "resolved (notesState s ! k)"
    then have x: "notesState s' ! k = notesState s ! k \<and> eventsOf k n1 = []"
      using a unfolding advances_def by blast
    then have "resolved (notesState s' ! k)" using r by simp
    then show "notesState s'' ! k = notesState s ! k \<and> eventsOf k (n1 @ n2) = []"
      using keep x by (simp add: eventsOf_append)
  qed
  have c5: "hit (notesState s'' ! k) \<and> missed (notesState s'' ! k) \<longrightarrow>
            hit (notesState s ! k) \<and> missed (notesState s ! k)"
    using a b unfolding advances_def by blast
  have c6: "k \<in> set (activeNotes s) \<longrightarrow>
            k \<in> set (activeNotes s'') \<or> resolved (notesState s'' ! k)"
  proof
    assume "k \<in> set (activeNotes s)"
    then have "k \<in> set (activeNotes s') \<or> resolved (notesState s' ! k)"
      using a unfolding advances_def by blast
    then show "k \<in> set (activeNotes s'') \<or> resolved (notesState s'' ! k)"
    proof
      assume "k \<in> set (activeNotes s')"
      then show ?thesis using b unfolding advances_def by blast
    next
      assume "resolved (notesState s' ! k)"
      then show ?thesis using keep by simp
    qed
  qed
  have c7: "length (eventsOf k (n1 @ n2)) \<le> 1"
  proof (cases "eventsOf k n1 = []")
    case True
    then show ?thesis using b unfolding advances_def by (simp add: eventsOf_append)
  next
    case False
    then have "eventsOf k n2 = []" using r1 keep by simp
    then show ?thesis using a unfolding advances_def by (simp add: eventsOf_append)
  qed
  have c8: "\<forall>e \<in> set (eventsOf k (n1 @ n2)).
            eventMatches e (notesState s'' ! k)"
  proof
    fix e assume "e \<in> set (eventsOf k (n1 @ n2))"
    then consider "e \<in> set (eventsOf k n1)" | "e \<in> set (eventsOf k n2)"
      by (auto simp: eventsOf_append)
    then show "eventMatches e (notesState s'' ! k)"
    proof cases
      case 1
      then have "eventsOf k n1 \<noteq> []" by auto
      then have "notesState s'' ! k = notesState s' ! k" using r1 keep by simp
      moreover have "eventMatches e (notesState s' ! k)"
        using a 1 unfolding advances_def by blast
      ultimately show ?thesis by simp
    next
      case 2
      then show ?thesis using b unfolding advances_def by blast
    qed
  qed
  show ?thesis
    unfolding advances_def using c1 c2 c3 c4 c5 c6 c7 c8 by blast
qed

lemma judgeNote_Miss: "judgeNote t h n = Miss \<Longrightarrow> \<not> hit n \<and> \<not> missed n"
  by (simp add: judgeNote_def split: if_splits)

lemma judgeNote_Hit: "judgeNote t h n = Hit g \<Longrightarrow> \<not> hit n \<and> \<not> missed n"
  by (simp add: judgeNote_def split: if_splits)

lemma length_splice1: "i < length xs \<Longrightarrow> length (splice1 i xs) = length xs - 1"
  by (simp add: splice1_def)

lemma set_splice1_subset: "set (splice1 i xs) \<subseteq> set xs"
  unfolding splice1_def using set_take_subset [of i xs] set_drop_subset [of "Suc i" xs]
  by auto

lemma set_splice1_keeps:
  assumes "x \<in> set xs" and "i < length xs" and "x \<noteq> xs ! i"
  shows "x \<in> set (splice1 i xs)"
proof -
  have e: "set xs = set (take i xs @ xs ! i # drop (Suc i) xs)"
    by (rule arg_cong [where f = set, OF id_take_nth_drop [OF assms(2)]])
  from assms(1) have "x \<in> set (take i xs @ xs ! i # drop (Suc i) xs)"
    unfolding e [symmetric] .
  with assms(3) show ?thesis by (simp add: splice1_def)
qed

lemma validRefs_splice1:
  "list_all P xs \<Longrightarrow> list_all P (splice1 i xs)"
  using set_splice1_subset [of i xs] by (auto simp: list_all_iff)

lemma eventsOf_single:
  "eventsOf k [e] = (if eventNote e = Some k then [e] else [])"
  by (simp add: eventsOf_def)

lemma collideAt_advances:
  assumes v: "validRefs s" and i: "i < length (activeNotes s)"
  shows "\<exists>s' new. collideAt t h i (s, evs) = (s', evs @ new)
           \<and> advances k s s' new \<and> i \<le> length (activeNotes s')"
proof -
  let ?j = "activeNotes s ! i"
  let ?n = "notesState s ! ?j"
  have jin: "?j \<in> set (activeNotes s)" using i by simp
  then have jlt: "?j < length (notesState s)"
    using v by (simp add: validRefs_def list_all_iff)
  show ?thesis
  proof (cases "judgeNote t h ?n")
    case Skip
    then have "collideAt t h i (s, evs) = (s, evs @ [])"
      by (simp add: collideAt_def Let_def)
    then show ?thesis using advances_refl [OF v] i by fastforce
  next
    case Stay
    then have "collideAt t h i (s, evs) = (s, evs @ [])"
      by (simp add: collideAt_def Let_def)
    then show ?thesis using advances_refl [OF v] i by fastforce
  next
    case Miss
    let ?s' = "s\<lparr> notesState := (notesState s)[?j := ?n\<lparr> missed := True \<rparr>],
                  activeNotes := splice1 i (activeNotes s) \<rparr>"
    have eq: "collideAt t h i (s, evs) = (?s', evs @ [OnNoteMiss ?j])"
      using Miss by (simp add: collideAt_def Let_def)
    have un: "\<not> hit ?n \<and> \<not> missed ?n" using Miss by (rule judgeNote_Miss)
    have len: "i \<le> length (activeNotes ?s')"
      using i by (simp add: length_splice1)
    have adv: "advances k s ?s' [OnNoteMiss ?j]"
      unfolding advances_def
    proof (intro conjI impI ballI)
      show "length (notesState ?s') = length (notesState s)" by simp
      show "validRefs ?s'"
        using v by (simp add: validRefs_def validRefs_splice1)
      show "nextNoteIndex s \<le> nextNoteIndex ?s'" by simp
      show "notesState ?s' ! k = notesState s ! k" if "resolved (notesState s ! k)"
        using that un by (cases "k = ?j") (auto simp: resolved_def)
      show "eventsOf k [OnNoteMiss ?j] = []" if "resolved (notesState s ! k)"
        using that un by (auto simp: eventsOf_single resolved_def)
      show "hit (notesState s ! k)" if "hit (notesState ?s' ! k) \<and> missed (notesState ?s' ! k)"
        using that un jlt by (cases "k = ?j") auto
      show "missed (notesState s ! k)" if "hit (notesState ?s' ! k) \<and> missed (notesState ?s' ! k)"
        using that un jlt by (cases "k = ?j") auto
      show "k \<in> set (activeNotes ?s') \<or> resolved (notesState ?s' ! k)"
        if "k \<in> set (activeNotes s)"
      proof (cases "k = ?j")
        case True
        then show ?thesis using jlt by (simp add: resolved_def)
      next
        case False
        then show ?thesis using that i by (simp add: set_splice1_keeps)
      qed
      show "length (eventsOf k [OnNoteMiss ?j]) \<le> 1" by (simp add: eventsOf_single)
      show "eventMatches e (notesState ?s' ! k)" if "e \<in> set (eventsOf k [OnNoteMiss ?j])" for e
        using that jlt by (auto simp: eventsOf_single split: if_splits)
    qed
    show ?thesis using eq adv len by blast
  next
    case (Hit g)
    let ?s' = "s\<lparr> notesState := (notesState s)[?j := ?n\<lparr> hit := True, hitTime := Some t \<rparr>],
                  activeNotes := splice1 i (activeNotes s) \<rparr>"
    have eq: "collideAt t h i (s, evs) = (?s', evs @ [OnNoteHit ?j g])"
      using Hit by (simp add: collideAt_def Let_def)
    have un: "\<not> hit ?n \<and> \<not> missed ?n" using Hit by (rule judgeNote_Hit)
    have len: "i \<le> length (activeNotes ?s')"
      using i by (simp add: length_splice1)
    have adv: "advances k s ?s' [OnNoteHit ?j g]"
      unfolding advances_def
    proof (intro conjI impI ballI)
      show "length (notesState ?s') = length (notesState s)" by simp
      show "validRefs ?s'"
        using v by (simp add: validRefs_def validRefs_splice1)
      show "nextNoteIndex s \<le> nextNoteIndex ?s'" by simp
      show "notesState ?s' ! k = notesState s ! k" if "resolved (notesState s ! k)"
        using that un by (cases "k = ?j") (auto simp: resolved_def)
      show "eventsOf k [OnNoteHit ?j g] = []" if "resolved (notesState s ! k)"
        using that un by (auto simp: eventsOf_single resolved_def)
      show "hit (notesState s ! k)" if "hit (notesState ?s' ! k) \<and> missed (notesState ?s' ! k)"
        using that un jlt by (cases "k = ?j") auto
      show "missed (notesState s ! k)" if "hit (notesState ?s' ! k) \<and> missed (notesState ?s' ! k)"
        using that un jlt by (cases "k = ?j") auto
      show "k \<in> set (activeNotes ?s') \<or> resolved (notesState ?s' ! k)"
        if "k \<in> set (activeNotes s)"
      proof (cases "k = ?j")
        case True
        then show ?thesis using jlt by (simp add: resolved_def)
      next
        case False
        then show ?thesis using that i by (simp add: set_splice1_keeps)
      qed
      show "length (eventsOf k [OnNoteHit ?j g]) \<le> 1" by (simp add: eventsOf_single)
      show "eventMatches e (notesState ?s' ! k)" if "e \<in> set (eventsOf k [OnNoteHit ?j g])" for e
        using that jlt by (auto simp: eventsOf_single split: if_splits)
    qed
    show ?thesis using eq adv len by blast
  qed
qed

lemma collideLoop_advances:
  "validRefs s \<Longrightarrow> n \<le> length (activeNotes s) \<Longrightarrow>
   \<exists>s' new. collideLoop t h n (s, evs) = (s', evs @ new) \<and> advances k s s' new"
proof (induction n arbitrary: s evs)
  case 0
  then show ?case using advances_refl [of s k] by fastforce
next
  case (Suc n)
  then have "n < length (activeNotes s)" by simp
  from collideAt_advances [OF Suc.prems(1) this, of t h evs k]
  obtain s1 new1 where st: "collideAt t h n (s, evs) = (s1, evs @ new1)"
    and a1: "advances k s s1 new1" and l1: "n \<le> length (activeNotes s1)"
    by blast
  have v1: "validRefs s1" using a1 by (simp add: advances_def)
  from Suc.IH [OF v1 l1, of "evs @ new1"]
  obtain s2 new2 where st2: "collideLoop t h n (s1, evs @ new1) = (s2, (evs @ new1) @ new2)"
    and a2: "advances k s1 s2 new2"
    by blast
  have "collideLoop t h (Suc n) (s, evs) = (s2, evs @ (new1 @ new2))"
    using st st2 by simp
  moreover have "advances k s s2 (new1 @ new2)"
    using a1 a2 by (rule advances_trans)
  ultimately show ?case by blast
qed

subsection \<open>Frames and runs\<close>

lemma spawnNotes_validRefs:
  assumes "validRefs s"
  shows "validRefs (spawnNotes t s)"
proof -
  have "list_all (\<lambda>j. j < length (notesState s))
          [nextNoteIndex s ..< nextNoteIndex (spawnNotes t s)]"
    using spawnNotes_admitted_due [of s _ t] by (auto simp: list_all_iff)
  then show ?thesis
    using assms
    by (simp add: validRefs_def spawnNotes_notesState spawnNotes_active [of t s])
qed

lemma spawnNotes_advances:
  assumes "validRefs s"
  shows "advances k s (spawnNotes t s) []"
  unfolding advances_def
  using spawnNotes_validRefs [OF assms, of t] spawnNotes_cursor_mono [of s t]
        spawnNotes_active [of t s]
  by (simp add: spawnNotes_notesState eventsOf_Nil)

lemma useFrame_advances:
  assumes v: "validRefs s"
  shows "advances k s (fst (useFrame f s)) (snd (useFrame f s))"
proof (cases "status f = PLAYING")
  case False
  then show ?thesis using advances_refl [OF v] by (simp add: useFrame_def)
next
  case True
  show ?thesis
  proof (cases "audio f")
    case None
    then show ?thesis using True advances_refl [OF v] by (simp add: useFrame_def)
  next
    case (Some a)
    obtain t ended where a: "a = (t, ended)" by (cases a)
    show ?thesis
    proof (cases ended)
      case True
      have "advances k s s ([] @ [OnSongEnd])"
        using advances_refl [OF v, of k]
        by (simp add: advances_def eventsOf_def)
      then show ?thesis
        using True \<open>status f = PLAYING\<close> Some a by (simp add: useFrame_def)
    next
      case False
      let ?s1 = "spawnNotes t s"
      have a1: "advances k s ?s1 []" using v by (rule spawnNotes_advances)
      have v1: "validRefs ?s1" using v by (rule spawnNotes_validRefs)
      from collideLoop_advances [OF v1 le_refl, of t "handPositions f" "[]" k]
      obtain s2 new where st: "collideLoop t (handPositions f) (length (activeNotes ?s1)) (?s1, [])
                                 = (s2, [] @ new)"
        and a2: "advances k ?s1 s2 new"
        by blast
      have "advances k s s2 ([] @ new)" using a1 a2 by (rule advances_trans)
      moreover have "useFrame f s = (s2, new)"
        using False \<open>status f = PLAYING\<close> Some a st by (simp add: useFrame_def Let_def)
      ultimately show ?thesis by simp
    qed
  qed
qed

lemma runFrames_advances:
  "validRefs s \<Longrightarrow> advances k s (fst (runFrames s fs)) (snd (runFrames s fs))"
proof (induction fs arbitrary: s)
  case Nil
  then show ?case by (simp add: advances_refl)
next
  case (Cons f fs)
  let ?s1 = "fst (useFrame f s)"
  have a1: "advances k s ?s1 (snd (useFrame f s))"
    using Cons.prems by (rule useFrame_advances)
  then have v1: "validRefs ?s1" by (simp add: advances_def)
  have a2: "advances k ?s1 (fst (runFrames ?s1 fs)) (snd (runFrames ?s1 fs))"
    using v1 by (rule Cons.IH)
  have "advances k s (fst (runFrames ?s1 fs)) (snd (useFrame f s) @ snd (runFrames ?s1 fs))"
    using a1 a2 by (rule advances_trans)
  then show ?case by (simp add: split_def)
qed

lemma runFrames_append:
  "runFrames s (fs @ gs)
     = (fst (runFrames (fst (runFrames s fs)) gs),
        snd (runFrames s fs) @ snd (runFrames (fst (runFrames s fs)) gs))"
  by (induction fs arbitrary: s) (simp_all add: split_def)

lemma advances_rank:
  assumes "advances k s s' new"
  shows "statusRank (noteStatusOf s k) \<le> statusRank (noteStatusOf s' k)"
proof (cases "resolved (notesState s ! k)")
  case True
  then have "notesState s' ! k = notesState s ! k"
    using assms unfolding advances_def by blast
  then show ?thesis using True by (auto simp: noteStatusOf_def resolved_def)
next
  case False
  show ?thesis
  proof (cases "k \<in> set (activeNotes s)")
    case True
    then have "k \<in> set (activeNotes s') \<or> resolved (notesState s' ! k)"
      using assms unfolding advances_def by blast
    then show ?thesis using False True by (auto simp: noteStatusOf_def resolved_def)
  next
    case notin: False
    then show ?thesis using False by (simp add: noteStatusOf_def resolved_def)
  qed
qed

lemma advances_final:
  assumes "advances k s s' new" and "statusRank (noteStatusOf s k) = 2"
  shows "notesState s' ! k = notesState s ! k \<and> noteStatusOf s' k = noteStatusOf s k
         \<and> eventsOf k new = []"
proof -
  have "resolved (notesState s ! k)"
    using assms(2) by (auto simp: noteStatusOf_def resolved_def split: if_splits)
  then have "notesState s' ! k = notesState s ! k \<and> eventsOf k new = []"
    using assms(1) unfolding advances_def by blast
  moreover have "noteStatusOf s' k = noteStatusOf s k"
    using calculation \<open>resolved (notesState s ! k)\<close>
    by (auto simp: noteStatusOf_def resolved_def)
  ultimately show ?thesis by simp
qed

lemma collideAt_cursor: "nextNoteIndex (fst (collideAt t h i st)) = nextNoteIndex (fst st)"
  by (cases st) (simp add: collideAt_def Let_def split: verdict.splits)

lemma collideLoop_cursor: "nextNoteIndex (fst (collideLoop t h n st)) = nextNoteIndex (fst st)"
  by (induction n arbitrary: st) (simp_all add: collideAt_cursor)

lemma admittedIn_cursor:
  "admittedIn f s = [nextNoteIndex s ..< nextNoteIndex (fst (useFrame f s))]"
proof (cases "status f = PLAYING")
  case False
  then show ?thesis by (simp add: admittedIn_def useFrame_def)
next
  case True
  show ?thesis
  proof (cases "audio f")
    case None
    then show ?thesis using True by (simp add: admittedIn_def useFrame_def)
  next
    case (Some a)
    obtain t ended where a: "a = (t, ended)" by (cases a)
    show ?thesis
      using True Some a spawnNotes_active [of t s]
      by (simp add: admittedIn_def useFrame_def Let_def collideLoop_cursor)
  qed
qed

lemma useFrame_cursor_mono: "nextNoteIndex s \<le> nextNoteIndex (fst (useFrame f s))"
  by (auto simp: useFrame_def Let_def collideLoop_cursor spawnNotes_cursor_mono
           split: option.splits)

lemma runFrames_cursor_mono: "nextNoteIndex s \<le> nextNoteIndex (fst (runFrames s fs))"
proof (induction fs arbitrary: s)
  case Nil
  then show ?case by simp
next
  case (Cons f fs)
  have "nextNoteIndex s \<le> nextNoteIndex (fst (useFrame f s))"
    by (rule useFrame_cursor_mono)
  also have "\<dots> \<le> nextNoteIndex (fst (runFrames (fst (useFrame f s)) fs))"
    by (rule Cons.IH)
  finally show ?case by (simp add: split_def)
qed

lemma upt_join: "a \<le> b \<Longrightarrow> b \<le> c \<Longrightarrow> [a ..< b] @ [b ..< c] = [a ..< c]"
  using upt_add_eq_append [of a b "c - b"] by simp

lemma admissions_cursor:
  "admissions s fs = [nextNoteIndex s ..< nextNoteIndex (fst (runFrames s fs))]"
proof (induction fs arbitrary: s)
  case Nil
  then show ?case by simp
next
  case (Cons f fs)
  let ?s1 = "fst (useFrame f s)"
  have "admissions s (f # fs)
          = [nextNoteIndex s ..< nextNoteIndex ?s1]
            @ [nextNoteIndex ?s1 ..< nextNoteIndex (fst (runFrames ?s1 fs))]"
    by (simp add: admittedIn_cursor Cons.IH)
  also have "\<dots> = [nextNoteIndex s ..< nextNoteIndex (fst (runFrames ?s1 fs))]"
    by (rule upt_join [OF useFrame_cursor_mono runFrames_cursor_mono])
  finally show ?case by (simp add: split_def)
qed

lemma statusRank_low:
  "statusRank x = statusRank y \<Longrightarrow> statusRank x < 2 \<Longrightarrow> x = y"
  by (cases x; cases y) simp_all

lemma statusRank_le_2: "statusRank x \<le> 2"
  by (cases x) simp_all

subsection \<open>Worked examples\<close>

text \<open>
  Three notes due at 2, 3 and 10 seconds, audio time 0.5: the lead time is 3 seconds,
  so the first two notes are admitted and the cursor stops at the third.
\<close>

lemma spawn_example:
  "spawnNotes 0.5 (initScene [newNote 0 2 0 0 LeftHand, newNote 1 3 2 0 RightHand,
                              newNote 2 10 0 0 LeftHand])
     = \<lparr> notesState = [newNote 0 2 0 0 LeftHand, newNote 1 3 2 0 RightHand,
                        newNote 2 10 0 0 LeftHand],
         activeNotes = [0, 1], nextNoteIndex = 2 \<rparr>"
  by (simp add: spawnNotes.simps initScene_def newNote_def spawnAheadTime_def
        SPAWN_Z_def PLAYER_Z_def NOTE_SPEED_def)

text \<open>
  One note due at 1 second and no hands. The frame at audio time 0 admits it; at audio
  time 1.6 it is 6 units behind the player, past the miss plane, and is missed.
\<close>

lemma run_example:
  "runFrames (initScene [newNote 0 1 0 0 LeftHand]) [playing 0 noHands]
     = (\<lparr> notesState = [newNote 0 1 0 0 LeftHand], activeNotes = [0], nextNoteIndex = 1 \<rparr>, [])
   \<and> runFrames \<lparr> notesState = [newNote 0 1 0 0 LeftHand], activeNotes = [0], nextNoteIndex = 1 \<rparr>
        [playing 1.6 noHands]
     = (\<lparr> notesState = [(newNote 0 1 0 0 LeftHand)\<lparr> missed := True \<rparr>], activeNotes = [],
          nextNoteIndex = 1 \<rparr>, [OnNoteMiss 0])"
  by (simp add: useFrame_def playing_def noHands_def initScene_def spawnNotes.simps
        spawnAheadTime_def SPAWN_Z_def PLAYER_Z_def NOTE_SPEED_def MISS_Z_def newNote_def
        collideAt_def judgeNote_def currentZ_def handReaches_def splice1_def Let_def)

section \<open>Claims about the scene\<close>

text \<open>
  Claim C8. The spawn loop of a frame admits a pending note exactly when its time minus
  the spawn lead time (the distance from the spawn plane to the player plane divided by
  the note speed) is at most the audio time, for a chart in order of time. The cursor
  only moves forward; the notes admitted are the stretch of the chart from the old
  cursor to the new one, in order, each pushed once; all of them are due, and the note
  at the new cursor, if there is one, is not due. Over any run of frames from the start
  of a chart the notes admitted are the positions 0 up to the cursor, so no note is
  admitted twice.
\<close>

theorem spawn_admits_due_prefix:
  "spawnAheadTime = \<bar>SPAWN_Z - PLAYER_Z\<bar> / NOTE_SPEED
   \<and> nextNoteIndex s \<le> nextNoteIndex (spawnNotes t s)
   \<and> notesState (spawnNotes t s) = notesState s
   \<and> activeNotes (spawnNotes t s)
        = activeNotes s @ [nextNoteIndex s ..< nextNoteIndex (spawnNotes t s)]
   \<and> (\<forall>j. nextNoteIndex s \<le> j \<and> j < nextNoteIndex (spawnNotes t s) \<longrightarrow>
          j < length (notesState s) \<and> time (notesState s ! j) - spawnAheadTime \<le> t)
   \<and> (nextNoteIndex (spawnNotes t s) < length (notesState s) \<longrightarrow>
          \<not> time (notesState s ! nextNoteIndex (spawnNotes t s)) - spawnAheadTime \<le> t)
   \<and> (sorted (map time (notesState s)) \<longrightarrow>
        (\<forall>j. nextNoteIndex s \<le> j \<and> j < length (notesState s) \<longrightarrow>
           (j < nextNoteIndex (spawnNotes t s)
              \<longleftrightarrow> time (notesState s ! j) - spawnAheadTime \<le> t)))
   \<and> admittedIn (playing t h) s = [nextNoteIndex s ..< nextNoteIndex (spawnNotes t s)]
   \<and> admissions (initScene chart) fs
        = [0 ..< nextNoteIndex (fst (runFrames (initScene chart) fs))]
   \<and> distinct (admissions (initScene chart) fs)"
proof -
  have a: "admittedIn (playing t h) s = [nextNoteIndex s ..< nextNoteIndex (spawnNotes t s)]"
    using spawnNotes_active [of t s] by (simp add: admittedIn_def playing_def)
  have b: "admissions (initScene chart) fs
             = [0 ..< nextNoteIndex (fst (runFrames (initScene chart) fs))]"
    using admissions_cursor [of "initScene chart" fs] by (simp add: initScene_def)
  have c: "distinct (admissions (initScene chart) fs)"
    by (simp add: admissions_cursor)
  have d: "\<forall>j. nextNoteIndex s \<le> j \<and> j < nextNoteIndex (spawnNotes t s) \<longrightarrow>
          j < length (notesState s) \<and> time (notesState s ! j) - spawnAheadTime \<le> t"
    using spawnNotes_admitted_due by blast
  have e: "nextNoteIndex (spawnNotes t s) < length (notesState s) \<longrightarrow>
          \<not> time (notesState s ! nextNoteIndex (spawnNotes t s)) - spawnAheadTime \<le> t"
    using spawnNotes_first_not_due by blast
  have f: "sorted (map time (notesState s)) \<longrightarrow>
        (\<forall>j. nextNoteIndex s \<le> j \<and> j < length (notesState s) \<longrightarrow>
           (j < nextNoteIndex (spawnNotes t s)
              \<longleftrightarrow> time (notesState s ! j) - spawnAheadTime \<le> t))"
    using spawnNotes_sorted_exact by blast
  have g: "spawnAheadTime = \<bar>SPAWN_Z - PLAYER_Z\<bar> / NOTE_SPEED"
    by (simp add: spawnAheadTime_def)
  have i: "nextNoteIndex s \<le> nextNoteIndex (spawnNotes t s)"
    by (rule spawnNotes_cursor_mono)
  have j: "notesState (spawnNotes t s) = notesState s"
    by (rule spawnNotes_notesState)
  have k: "activeNotes (spawnNotes t s)
        = activeNotes s @ [nextNoteIndex s ..< nextNoteIndex (spawnNotes t s)]"
    by (rule spawnNotes_active)
  show ?thesis
    by (intro conjI) (fact a b c d e f g i j k)+
qed

theorem spawn_admits_due_prefix_witness:
  "sorted (map time (notesState (initScene [newNote 0 2 0 0 LeftHand, newNote 1 3 2 0 RightHand,
                              newNote 2 10 0 0 LeftHand])))
   \<and> activeNotes (spawnNotes 0.5 (initScene [newNote 0 2 0 0 LeftHand, newNote 1 3 2 0 RightHand,
                              newNote 2 10 0 0 LeftHand])) = [0, 1]
   \<and> nextNoteIndex (spawnNotes 0.5 (initScene [newNote 0 2 0 0 LeftHand,
                              newNote 1 3 2 0 RightHand, newNote 2 10 0 0 LeftHand])) = 2
   \<and> time ([newNote 0 2 0 0 LeftHand, newNote 1 3 2 0 RightHand,
             newNote 2 10 0 0 LeftHand] ! 1) - spawnAheadTime \<le> 0.5
   \<and> \<not> time ([newNote 0 2 0 0 LeftHand, newNote 1 3 2 0 RightHand,
               newNote 2 10 0 0 LeftHand] ! 2) - spawnAheadTime \<le> 0.5"
proof -
  let ?c = "[newNote 0 2 0 0 LeftHand, newNote 1 3 2 0 RightHand, newNote 2 10 0 0 LeftHand]"
  have srt: "sorted (map time (notesState (initScene ?c)))"
    by (simp add: initScene_def newNote_def)
  have "sorted (map time (notesState (initScene ?c))) \<longrightarrow>
        (\<forall>j. nextNoteIndex (initScene ?c) \<le> j \<and> j < length (notesState (initScene ?c)) \<longrightarrow>
           (j < nextNoteIndex (spawnNotes 0.5 (initScene ?c))
              \<longleftrightarrow> time (notesState (initScene ?c) ! j) - spawnAheadTime \<le> 0.5))"
    using spawn_admits_due_prefix [where s = "initScene ?c" and t = "0.5"] by blast
  then have "\<forall>j. nextNoteIndex (initScene ?c) \<le> j \<and> j < length (notesState (initScene ?c)) \<longrightarrow>
           (j < nextNoteIndex (spawnNotes 0.5 (initScene ?c))
              \<longleftrightarrow> time (notesState (initScene ?c) ! j) - spawnAheadTime \<le> 0.5)"
    using srt by blast
  then have ex: "\<forall>j. j < 3 \<longrightarrow>
        (j < 2 \<longleftrightarrow> time (?c ! j) - spawnAheadTime \<le> 0.5)"
    unfolding spawn_example by (simp add: initScene_def)
  have one: "time (?c ! 1) - spawnAheadTime \<le> 0.5"
    using ex [rule_format, of 1] by simp
  have two: "\<not> time (?c ! 2) - spawnAheadTime \<le> 0.5"
    using ex [rule_format, of 2] by simp
  have act: "activeNotes (spawnNotes 0.5 (initScene ?c)) = [0, 1]"
    unfolding spawn_example by simp
  have cur: "nextNoteIndex (spawnNotes 0.5 (initScene ?c)) = 2"
    unfolding spawn_example by simp
  show ?thesis
    by (intro conjI) (fact srt act cur one two)+
qed




text \<open>
  Claim C9. Over any run of frames, from any scene whose active references are valid,
  the status of a note only moves along pending, active, then hit or missed: its rank
  never decreases; a note that is hit or missed keeps its record and its status and
  fires no further callback; a status that was left is not reached again; no note
  becomes both hit and missed; and a run fires at most one callback for a note, which
  reports the flag that the note then carries.
\<close>

theorem note_status_monotonic:
  fixes s :: gameScene and k :: nat and fs gs hs :: "frame list"
  defines "s1 \<equiv> fst (runFrames s fs)"
  defines "s2 \<equiv> fst (runFrames s1 gs)"
  defines "evs \<equiv> snd (runFrames s1 gs)"
  defines "s3 \<equiv> fst (runFrames s2 hs)"
  assumes v: "validRefs s" and k: "k < length (notesState s)"
  shows "statusRank (noteStatusOf s1 k) \<le> statusRank (noteStatusOf s2 k)
     \<and> (noteStatusOf s1 k = StatusHit \<or> noteStatusOf s1 k = StatusMissed \<longrightarrow>
          notesState s2 ! k = notesState s1 ! k \<and> noteStatusOf s2 k = noteStatusOf s1 k
          \<and> eventsOf k evs = [])
     \<and> (noteStatusOf s3 k = noteStatusOf s1 k \<longrightarrow> noteStatusOf s2 k = noteStatusOf s1 k)
     \<and> (hit (notesState s2 ! k) \<and> missed (notesState s2 ! k) \<longrightarrow>
          hit (notesState s1 ! k) \<and> missed (notesState s1 ! k))
     \<and> length (eventsOf k evs) \<le> 1
     \<and> (\<forall>e \<in> set (eventsOf k evs). eventMatches e (notesState s2 ! k))"
proof -
  have a1: "advances k s s1 (snd (runFrames s fs))"
    unfolding s1_def using v by (rule runFrames_advances)
  then have v1: "validRefs s1" by (simp add: advances_def)
  have a2: "advances k s1 s2 evs"
    unfolding s2_def evs_def using v1 by (rule runFrames_advances)
  then have v2: "validRefs s2" by (simp add: advances_def)
  have a3: "advances k s2 s3 (snd (runFrames s2 hs))"
    unfolding s3_def using v2 by (rule runFrames_advances)
  have r12: "statusRank (noteStatusOf s1 k) \<le> statusRank (noteStatusOf s2 k)"
    using a2 by (rule advances_rank)
  have r23: "statusRank (noteStatusOf s2 k) \<le> statusRank (noteStatusOf s3 k)"
    using a3 by (rule advances_rank)
  have fin: "noteStatusOf s1 k = StatusHit \<or> noteStatusOf s1 k = StatusMissed \<longrightarrow>
          notesState s2 ! k = notesState s1 ! k \<and> noteStatusOf s2 k = noteStatusOf s1 k
          \<and> eventsOf k evs = []"
  proof
    assume "noteStatusOf s1 k = StatusHit \<or> noteStatusOf s1 k = StatusMissed"
    then have "statusRank (noteStatusOf s1 k) = 2" by auto
    then show "notesState s2 ! k = notesState s1 ! k \<and> noteStatusOf s2 k = noteStatusOf s1 k
          \<and> eventsOf k evs = []"
      using advances_final [OF a2] by simp
  qed
  have again: "noteStatusOf s3 k = noteStatusOf s1 k \<longrightarrow> noteStatusOf s2 k = noteStatusOf s1 k"
  proof
    assume eq: "noteStatusOf s3 k = noteStatusOf s1 k"
    then have req: "statusRank (noteStatusOf s2 k) = statusRank (noteStatusOf s1 k)"
      using r12 r23 by simp
    show "noteStatusOf s2 k = noteStatusOf s1 k"
    proof (cases "statusRank (noteStatusOf s1 k) < 2")
      case True
      then show ?thesis using req statusRank_low [of "noteStatusOf s2 k" "noteStatusOf s1 k"] by simp
    next
      case False
      then have "statusRank (noteStatusOf s1 k) = 2"
        using statusRank_le_2 [of "noteStatusOf s1 k"] by simp
      then show ?thesis using advances_final [OF a2] by simp
    qed
  qed
  have both: "hit (notesState s2 ! k) \<and> missed (notesState s2 ! k) \<longrightarrow>
          hit (notesState s1 ! k) \<and> missed (notesState s1 ! k)"
    using a2 unfolding advances_def by blast
  have once: "length (eventsOf k evs) \<le> 1"
    using a2 unfolding advances_def by blast
  have rep: "\<forall>e \<in> set (eventsOf k evs). eventMatches e (notesState s2 ! k)"
    using a2 unfolding advances_def by blast
  show ?thesis
    by (intro conjI) (fact r12 fin again both once rep)+
qed

theorem note_status_monotonic_witness:
  "validRefs (initScene [newNote 0 1 0 0 LeftHand])
   \<and> 0 < length (notesState (initScene [newNote 0 1 0 0 LeftHand]))
   \<and> noteStatusOf (initScene [newNote 0 1 0 0 LeftHand]) 0 = StatusPending
   \<and> noteStatusOf (fst (runFrames (initScene [newNote 0 1 0 0 LeftHand])
          [playing 0 noHands])) 0 = StatusActive
   \<and> noteStatusOf (fst (runFrames (fst (runFrames (initScene [newNote 0 1 0 0 LeftHand])
          [playing 0 noHands])) [playing 1.6 noHands])) 0 = StatusMissed
   \<and> statusRank (noteStatusOf (fst (runFrames (initScene [newNote 0 1 0 0 LeftHand])
          [playing 0 noHands])) 0)
       \<le> statusRank (noteStatusOf (fst (runFrames (fst (runFrames
             (initScene [newNote 0 1 0 0 LeftHand]) [playing 0 noHands]))
             [playing 1.6 noHands])) 0)"
proof -
  let ?s = "initScene [newNote 0 1 0 0 LeftHand]"
  have v: "validRefs ?s" by (simp add: validRefs_def initScene_def)
  have k: "0 < length (notesState ?s)" by (simp add: initScene_def)
  have r: "statusRank (noteStatusOf (fst (runFrames ?s [playing 0 noHands])) 0)
       \<le> statusRank (noteStatusOf (fst (runFrames (fst (runFrames ?s [playing 0 noHands]))
             [playing 1.6 noHands])) 0)"
    using note_status_monotonic [where s = ?s and k = 0 and fs = "[playing 0 noHands]"
        and gs = "[playing 1.6 noHands]" and hs = "[]", OF v k]
    by blast
  have p: "noteStatusOf ?s 0 = StatusPending"
    by (simp add: noteStatusOf_def initScene_def newNote_def)
  have a: "noteStatusOf (fst (runFrames ?s [playing 0 noHands])) 0 = StatusActive"
    unfolding run_example [THEN conjunct1] by (simp add: noteStatusOf_def newNote_def)
  have m: "noteStatusOf (fst (runFrames (fst (runFrames ?s [playing 0 noHands]))
             [playing 1.6 noHands])) 0 = StatusMissed"
    unfolding run_example [THEN conjunct1] fst_conv run_example [THEN conjunct2]
    by (simp add: noteStatusOf_def newNote_def)
  show ?thesis
    by (intro conjI) (fact v k p a m r)+
qed

end
